theory Spec2Isabelle
  imports Complex_Main
begin

section \<open>Python floats\<close>

text \<open>
  The two helpers of \<^verbatim>\<open>app.py\<close> compute on Python \<^verbatim>\<open>float\<close> values, which are
  IEEE 754 binary64 numbers: every arithmetic result is the exact result rounded to the
  nearest double, ties going to the even significand. A value is a rational (the doubles
  are rationals), an infinity or a NaN. The two zeros are one value here: they compare
  equal in Python and the program never divides by a zero.
\<close>

datatype pyfloat = Fin rat | PInf | NInf | NaN

datatype py_error = ZeroDivisionError

text \<open>The number of binary digits of a positive integer.\<close>

function blen :: "int \<Rightarrow> nat" where
  "blen n = (if n \<le> 0 then 0 else Suc (blen (n div 2)))"
  by pat_completeness auto
termination
  by (relation "measure nat") auto

declare blen.simps [simp del]

definition pow2 :: "int \<Rightarrow> rat" where
  "pow2 k = (if 0 \<le> k then 2 ^ nat k else 1 / 2 ^ nat (- k))"

text \<open>The binary exponent of a positive rational: \<open>pow2 (ilog2 x) \<le> x < pow2 (ilog2 x + 1)\<close>.\<close>

definition ilog2 :: "rat \<Rightarrow> int" where
  "ilog2 x =
     (if 1 \<le> x then int (blen \<lfloor>x\<rfloor>) - 1
      else (let k = int (blen \<lfloor>1 / x\<rfloor>) - 1
            in if pow2 (- k) \<le> x then - k else - k - 1))"

definition round_half_even :: "rat \<Rightarrow> int" where
  "round_half_even r =
     (let f = \<lfloor>r\<rfloor>; d = r - of_int f
      in if d < 1 / 2 then f
         else if 1 / 2 < d then f + 1
         else if even f then f else f + 1)"

text \<open>
  Rounding to binary64. The significand has 53 bits: with \<open>e\<close> the binary exponent
  of \<open>\<bar>x\<bar>\<close>, and never less than \<open>-1022\<close> (below, the spacing stays that of the
  subnormals), \<open>\<bar>x\<bar>\<close> is rounded to a multiple \<open>n\<close> of \<open>2 ^ (e - 52)\<close>. The result is
  an infinity once it reaches \<open>2 ^ 1024\<close>, that is, when \<open>e\<close> is 1024 or more, or
  \<open>e\<close> is 1023 and the significand rounds up to \<open>2 ^ 53\<close>.
\<close>

definition round_f64 :: "rat \<Rightarrow> pyfloat" where
  "round_f64 x =
     (if x = 0 then Fin 0
      else (let e = max (ilog2 \<bar>x\<bar>) (- 1022);
                q = pow2 (e - 52);
                n = round_half_even (\<bar>x\<bar> / q)
            in if 1024 \<le> e \<or> (e = 1023 \<and> 2 ^ 53 \<le> n)
               then (if 0 < x then PInf else NInf)
               else Fin (if 0 < x then of_int n * q else - (of_int n * q))))"

text \<open>
  The two steps of \<open>round_f64\<close> on a positive rational, named for the proofs: the spacing
  of the doubles around \<open>x\<close>, and the multiple of it nearest to \<open>x\<close>.
\<close>

definition f64_quantum :: "rat \<Rightarrow> rat" where
  "f64_quantum x = pow2 (max (ilog2 \<bar>x\<bar>) (- 1022) - 52)"

definition f64_nearest :: "rat \<Rightarrow> rat" where
  "f64_nearest x = of_int (round_half_even (\<bar>x\<bar> / f64_quantum x)) * f64_quantum x"

text \<open>A double is a value that rounding leaves alone.\<close>

definition is_f64 :: "pyfloat \<Rightarrow> bool" where
  "is_f64 a = (case a of Fin x \<Rightarrow> round_f64 x = Fin x | _ \<Rightarrow> True)"

text \<open>Comparisons: every comparison with a NaN is false.\<close>

fun fle :: "pyfloat \<Rightarrow> pyfloat \<Rightarrow> bool" where
  "fle NaN _ = False"
| "fle _ NaN = False"
| "fle NInf _ = True"
| "fle _ PInf = True"
| "fle PInf _ = False"
| "fle _ NInf = False"
| "fle (Fin x) (Fin y) = (x \<le> y)"

fun flt :: "pyfloat \<Rightarrow> pyfloat \<Rightarrow> bool" where
  "flt NaN _ = False"
| "flt _ NaN = False"
| "flt PInf _ = False"
| "flt _ NInf = False"
| "flt NInf _ = True"
| "flt _ PInf = True"
| "flt (Fin x) (Fin y) = (x < y)"

fun fneg :: "pyfloat \<Rightarrow> pyfloat" where
  "fneg (Fin x) = Fin (- x)"
| "fneg PInf = NInf"
| "fneg NInf = PInf"
| "fneg NaN = NaN"

fun fadd :: "pyfloat \<Rightarrow> pyfloat \<Rightarrow> pyfloat" where
  "fadd NaN _ = NaN"
| "fadd _ NaN = NaN"
| "fadd PInf NInf = NaN"
| "fadd NInf PInf = NaN"
| "fadd PInf _ = PInf"
| "fadd _ PInf = PInf"
| "fadd NInf _ = NInf"
| "fadd _ NInf = NInf"
| "fadd (Fin x) (Fin y) = round_f64 (x + y)"

definition fsub :: "pyfloat \<Rightarrow> pyfloat \<Rightarrow> pyfloat" where
  "fsub a b = fadd a (fneg b)"

text \<open>The sign of a product or quotient with an infinity: \<open>s\<close> is the sign of the other side.\<close>

definition signed_inf :: "rat \<Rightarrow> pyfloat" where
  "signed_inf s = (if s = 0 then NaN else if 0 < s then PInf else NInf)"

fun fmul :: "pyfloat \<Rightarrow> pyfloat \<Rightarrow> pyfloat" where
  "fmul NaN _ = NaN"
| "fmul _ NaN = NaN"
| "fmul (Fin x) (Fin y) = round_f64 (x * y)"
| "fmul (Fin x) PInf = signed_inf x"
| "fmul (Fin x) NInf = signed_inf (- x)"
| "fmul PInf (Fin y) = signed_inf y"
| "fmul NInf (Fin y) = signed_inf (- y)"
| "fmul PInf PInf = PInf"
| "fmul NInf NInf = PInf"
| "fmul PInf NInf = NInf"
| "fmul NInf PInf = NInf"

text \<open>
  Python's \<^verbatim>\<open>/\<close> on floats raises \<^verbatim>\<open>ZeroDivisionError\<close> when the divisor is zero,
  whatever the dividend; an overflow gives an infinity and raises nothing.
\<close>

fun fdiv :: "pyfloat \<Rightarrow> pyfloat \<Rightarrow> py_error + pyfloat" where
  "fdiv a (Fin y) =
     (if y = 0 then Inl ZeroDivisionError
      else Inr (case a of
                  Fin x \<Rightarrow> round_f64 (x / y)
                | PInf \<Rightarrow> signed_inf y
                | NInf \<Rightarrow> signed_inf (- y)
                | NaN \<Rightarrow> NaN))"
| "fdiv (Fin x) PInf = Inr (Fin 0)"
| "fdiv (Fin x) NInf = Inr (Fin 0)"
| "fdiv _ _ = Inr NaN"

text \<open>A decimal literal of the source denotes the double nearest to it.\<close>

definition lit :: "rat \<Rightarrow> pyfloat" where
  "lit r = round_f64 r"

section \<open>The helpers of app.py\<close>

subsection \<open>get_budget_summary\<close>

text \<open>
  The dictionary is an association list in insertion order; the comprehension keeps the
  keys and their order. The default \<^verbatim>\<open>income = 0\<close> is the argument \<open>Fin 0\<close>.
\<close>

definition get_budget_summary :: "string \<Rightarrow> pyfloat \<Rightarrow> (string \<times> pyfloat) list" where
  "get_budget_summary user_type income =
     (let budget =
            (if user_type = ''Student''
             then [(''Essentials'', lit (50 / 100)),
                   (''Education'', lit (30 / 100)),
                   (''Savings'', lit (20 / 100))]
             else [(''Essentials'', lit (40 / 100)),
                   (''Savings'', lit (20 / 100)),
                   (''Investments'', lit (20 / 100)),
                   (''Discretionary'', lit (20 / 100))])
      in if flt (Fin 0) income
         then map (\<lambda>(k, v). (k, fmul v income)) budget
         else budget)"

subsection \<open>calculate_tax\<close>

record tax_info =
  annual_income :: pyfloat
  tax :: pyfloat
  cess :: pyfloat
  total_tax :: pyfloat
  monthly_tax :: pyfloat
  effective_rate :: pyfloat

text \<open>
  The integers of the source (\<^verbatim>\<open>12\<close>, \<^verbatim>\<open>300000\<close>, the \<^verbatim>\<open>0\<close> of the first bracket
  and of the effective rate) are the floats of the same value: mixed arithmetic converts
  them exactly and \<^verbatim>\<open>0 == 0.0\<close>. The values of the dictionary are evaluated in the
  order written, so the division by 12 comes before the guarded division.
\<close>

definition calculate_tax :: "pyfloat \<Rightarrow> string \<Rightarrow> py_error + tax_info" where
  "calculate_tax income user_type =
     (let annual = fmul income (Fin 12);
          t = (if fle annual (Fin 300000) then Fin 0
               else if fle annual (Fin 600000)
                 then fmul (fsub annual (Fin 300000)) (lit (5 / 100))
               else if fle annual (Fin 900000)
                 then fadd (Fin 15000) (fmul (fsub annual (Fin 600000)) (lit (10 / 100)))
               else if fle annual (Fin 1200000)
                 then fadd (Fin 45000) (fmul (fsub annual (Fin 900000)) (lit (15 / 100)))
               else if fle annual (Fin 1500000)
                 then fadd (Fin 90000) (fmul (fsub annual (Fin 1200000)) (lit (20 / 100)))
               else fadd (Fin 150000) (fmul (fsub annual (Fin 1500000)) (lit (30 / 100))));
          c = fmul t (lit (4 / 100));
          total = fadd t c
      in case fdiv total (Fin 12) of
           Inl e \<Rightarrow> Inl e
         | Inr monthly \<Rightarrow>
             (case (if flt (Fin 0) annual
                    then (case fdiv total annual of
                            Inl e \<Rightarrow> Inl e
                          | Inr r \<Rightarrow> Inr (fmul r (Fin 100)))
                    else Inr (Fin 0)) of
                Inl e \<Rightarrow> Inl e
              | Inr rate \<Rightarrow>
                  Inr \<lparr>annual_income = annual, tax = t, cess = c, total_tax = total,
                       monthly_tax = monthly, effective_rate = rate\<rparr>))"

text \<open>The bracket chain of \<open>calculate_tax\<close>, named: the \<open>tax\<close> of the source.\<close>

definition bracket_tax :: "pyfloat \<Rightarrow> pyfloat" where
  "bracket_tax annual =
     (if fle annual (Fin 300000) then Fin 0
      else if fle annual (Fin 600000)
        then fmul (fsub annual (Fin 300000)) (lit (5 / 100))
      else if fle annual (Fin 900000)
        then fadd (Fin 15000) (fmul (fsub annual (Fin 600000)) (lit (10 / 100)))
      else if fle annual (Fin 1200000)
        then fadd (Fin 45000) (fmul (fsub annual (Fin 900000)) (lit (15 / 100)))
      else if fle annual (Fin 1500000)
        then fadd (Fin 90000) (fmul (fsub annual (Fin 1200000)) (lit (20 / 100)))
      else fadd (Fin 150000) (fmul (fsub annual (Fin 1500000)) (lit (30 / 100))))"

text \<open>
  The handler of the "Calculate Tax" button of \<^verbatim>\<open>tax_calculator_page\<close>: the three
  deduction inputs are read and capped for display, and the calculation is called, when
  the income is positive, on the income and the profile's user type alone.
\<close>

definition total_80c :: "pyfloat \<Rightarrow> pyfloat \<Rightarrow> pyfloat \<Rightarrow> pyfloat" where
  "total_80c pf elss lic =
     (let s = fadd (fadd pf elss) lic in if flt (Fin 150000) s then Fin 150000 else s)"

definition tax_button ::
  "pyfloat \<Rightarrow> string \<Rightarrow> pyfloat \<Rightarrow> pyfloat \<Rightarrow> pyfloat \<Rightarrow> (py_error + tax_info) option" where
  "tax_button monthly_income user_type pf elss lic =
     (let shown = total_80c pf elss lic
      in if flt (Fin 0) monthly_income
         then Some (calculate_tax monthly_income user_type)
         else None)"

section \<open>Basic facts about the float operations\<close>

lemma round_f64_not_NaN: "round_f64 x \<noteq> NaN"
  by (simp add: round_f64_def Let_def)

lemma nonneg_cases:
  assumes "fle (Fin 0) m"
  obtains x where "m = Fin x" and "0 \<le> x" | "m = PInf"
  using assms by (cases m) auto

lemma fdiv_Fin_ok: "y \<noteq> 0 \<Longrightarrow> \<exists>q. fdiv a (Fin y) = Inr q"
  by simp

lemma fdiv_pos_ok: "flt (Fin 0) b \<Longrightarrow> \<exists>q. fdiv a b = Inr q"
  by (cases b; cases a) auto

lemma pow2_powi: "pow2 k = 2 powi k"
  by (simp add: pow2_def power_int_def field_simps)

lemma pow2_pos: "0 < pow2 k"
  by (simp add: pow2_powi)

lemma pow2_add: "pow2 (j + k) = pow2 j * pow2 k"
  by (simp add: pow2_powi power_int_add)

lemma pow2_mono: "j \<le> k \<Longrightarrow> pow2 j \<le> pow2 k"
  by (simp add: pow2_powi power_int_increasing)

lemma pow2_strict_mono: "j < k \<Longrightarrow> pow2 j < pow2 k"
  by (simp add: pow2_powi power_int_strict_increasing)

lemma pow2_less_iff: "pow2 j < pow2 k \<longleftrightarrow> j < k"
  using pow2_strict_mono [of j k] pow2_mono [of k j] by (auto simp: not_less [symmetric])

lemma pow2_nat: "pow2 (int n) = 2 ^ n"
  by (simp add: pow2_def)

lemma blen_bounds: "0 < n \<Longrightarrow> 2 ^ (blen n - 1) \<le> n \<and> n < 2 ^ blen n"
proof (induction n rule: blen.induct)
  case (1 n)
  show ?case
  proof (cases "n div 2 \<le> 0")
    case True
    with "1.prems" have "n = 1" by presburger
    then show ?thesis by (simp add: blen.simps)
  next
    case False
    then have ih: "2 ^ (blen (n div 2) - 1) \<le> n div 2 \<and> n div 2 < 2 ^ blen (n div 2)"
      using "1.IH" "1.prems" by simp
    have pos: "0 < blen (n div 2)"
      using False by (subst blen.simps) simp
    have b: "blen n = Suc (blen (n div 2))"
      using "1.prems" by (subst blen.simps) simp
    from pos obtain j where j: "blen (n div 2) = Suc j"
      by (cases "blen (n div 2)") auto
    from ih j have "2 * 2 ^ j \<le> n" "n < 2 * 2 ^ Suc j"
      by auto
    then show ?thesis by (simp add: b j)
  qed
qed

lemma pow2_le_of_int: "2 ^ k \<le> (f::int) \<Longrightarrow> (2::rat) ^ k \<le> of_int f"
proof -
  assume "2 ^ k \<le> f"
  then have "(of_int (2 ^ k) :: rat) \<le> of_int f"
    by (simp only: of_int_le_iff)
  then show ?thesis by simp
qed

lemma of_int_less_pow2: "(f::int) + 1 \<le> 2 ^ k \<Longrightarrow> (of_int f :: rat) + 1 \<le> 2 ^ k"
proof -
  assume "f + 1 \<le> 2 ^ k"
  then have "(of_int (f + 1) :: rat) \<le> of_int (2 ^ k)"
    by (simp only: of_int_le_iff)
  then show ?thesis by simp
qed

lemma blen_pos: "0 < n \<Longrightarrow> 0 < blen n"
  by (subst blen.simps) simp

lemma ilog2_bounds:
  assumes "0 < x"
  shows "pow2 (ilog2 x) \<le> x \<and> x < pow2 (ilog2 x + 1)"
proof (cases "1 \<le> x")
  case True
  define f where "f = \<lfloor>x\<rfloor>"
  have f1: "0 < f" using True by (simp add: f_def)
  have fx: "of_int f \<le> x" "x < of_int f + 1"
    using floor_correct [of x] by (simp_all add: f_def)
  from blen_bounds [OF f1] have b: "2 ^ (blen f - 1) \<le> f" "f + 1 \<le> 2 ^ blen f"
    by auto
  have bpos: "0 < blen f" using f1 by (rule blen_pos)
  have e: "ilog2 x = int (blen f - 1)"
    using True bpos by (simp add: ilog2_def f_def)
  have e1: "ilog2 x + 1 = int (blen f)"
    using e bpos by simp
  have "(2::rat) ^ (blen f - 1) \<le> of_int f"
    using b(1) by (rule pow2_le_of_int)
  moreover have "(of_int f :: rat) + 1 \<le> 2 ^ blen f"
    using b(2) by (rule of_int_less_pow2)
  ultimately show ?thesis
    unfolding e1 unfolding e pow2_nat using fx by linarith
next
  case False
  define y where "y = 1 / x"
  have y1: "1 < y" using False assms by (simp add: y_def)
  define f where "f = \<lfloor>y\<rfloor>"
  have f1: "0 < f" using y1 by (simp add: f_def)
  have fy: "of_int f \<le> y" "y < of_int f + 1"
    using floor_correct [of y] by (simp_all add: f_def)
  from blen_bounds [OF f1] have b: "2 ^ (blen f - 1) \<le> f" "f + 1 \<le> 2 ^ blen f"
    by auto
  have bpos: "0 < blen f" using f1 by (rule blen_pos)
  define k where "k = blen f - 1"
  have bk: "blen f = Suc k" using bpos by (simp add: k_def)
  have "(2::rat) ^ k \<le> of_int f"
    using b(1) unfolding k_def by (rule pow2_le_of_int)
  moreover have "(of_int f :: rat) + 1 \<le> 2 ^ Suc k"
    using b(2) unfolding bk by (rule of_int_less_pow2)
  ultimately have yb: "2 ^ k \<le> y" "y < 2 ^ Suc k"
    using fy by linarith+
  have xy: "x = 1 / y" using assms by (simp add: y_def)
  have up: "x \<le> 1 / 2 ^ k"
    unfolding xy using yb(1) by (simp add: frac_le)
  have lo: "1 / 2 ^ Suc k < x"
    unfolding xy using yb(2) y1 by (simp add: frac_less2)
  have pk: "pow2 (- int k) = 1 / 2 ^ k"
    by (simp add: pow2_def)
  have pk1: "pow2 (- int k - 1) = 1 / 2 ^ Suc k"
    by (simp add: pow2_def nat_add_distrib)
  have il: "ilog2 x = (if pow2 (- int k) \<le> x then - int k else - int k - 1)"
    using False bk by (simp add: ilog2_def f_def y_def k_def Let_def)
  show ?thesis
  proof (cases "pow2 (- int k) \<le> x")
    case True
    have "x < pow2 (- int k + 1)"
      using up pow2_strict_mono [of "- int k" "- int k + 1"] by (simp add: pk)
    with True show ?thesis by (simp add: il)
  next
    case False
    then have "x < pow2 (- int k)" by simp
    moreover have "pow2 (- int k - 1) \<le> x" using lo by (simp add: pk1)
    ultimately show ?thesis using False by (simp add: il)
  qed
qed

lemma ilog2_mono:
  assumes "0 < x" "x \<le> y"
  shows "ilog2 x \<le> ilog2 y"
proof -
  have "pow2 (ilog2 x) \<le> x" using ilog2_bounds assms by simp
  also have "x \<le> y" by fact
  also have "y < pow2 (ilog2 y + 1)" using ilog2_bounds [of y] assms by simp
  finally show ?thesis by (simp add: pow2_less_iff)
qed

section \<open>The shape of the result of calculate_tax\<close>

lemma calculate_tax_unfold:
  "calculate_tax m ut =
     (case fdiv (fadd (bracket_tax (fmul m (Fin 12)))
                      (fmul (bracket_tax (fmul m (Fin 12))) (lit (4 / 100)))) (Fin 12) of
        Inl e \<Rightarrow> Inl e
      | Inr monthly \<Rightarrow>
          (case (if flt (Fin 0) (fmul m (Fin 12))
                 then (case fdiv (fadd (bracket_tax (fmul m (Fin 12)))
                                   (fmul (bracket_tax (fmul m (Fin 12))) (lit (4 / 100))))
                                 (fmul m (Fin 12)) of
                         Inl e \<Rightarrow> Inl e
                       | Inr r \<Rightarrow> Inr (fmul r (Fin 100)))
                 else Inr (Fin 0)) of
             Inl e \<Rightarrow> Inl e
           | Inr rate \<Rightarrow>
               Inr \<lparr>annual_income = fmul m (Fin 12),
                    tax = bracket_tax (fmul m (Fin 12)),
                    cess = fmul (bracket_tax (fmul m (Fin 12))) (lit (4 / 100)),
                    total_tax = fadd (bracket_tax (fmul m (Fin 12)))
                                  (fmul (bracket_tax (fmul m (Fin 12))) (lit (4 / 100))),
                    monthly_tax = monthly, effective_rate = rate\<rparr>))"
  unfolding calculate_tax_def bracket_tax_def Let_def by (rule refl)

text \<open>
  \<open>calculate_tax\<close> returns a record on every input, and each field is the expression
  of the source.
\<close>

lemma calculate_tax_fields:
  fixes m :: pyfloat and ut :: string
  defines "a \<equiv> fmul m (Fin 12)"
  defines "t \<equiv> bracket_tax a"
  defines "tot \<equiv> fadd t (fmul t (lit (4 / 100)))"
  shows "\<exists>r. calculate_tax m ut = Inr r
           \<and> annual_income r = a \<and> tax r = t \<and> cess r = fmul t (lit (4 / 100))
           \<and> total_tax r = tot
           \<and> fdiv tot (Fin 12) = Inr (monthly_tax r)
           \<and> (if flt (Fin 0) a
               then \<exists>q. fdiv tot a = Inr q \<and> effective_rate r = fmul q (Fin 100)
               else effective_rate r = Fin 0)"
proof -
  obtain mo where mo: "fdiv tot (Fin 12) = Inr mo"
    using fdiv_Fin_ok [of 12 tot] by auto
  have unf: "calculate_tax m ut =
     (case fdiv tot (Fin 12) of
        Inl e \<Rightarrow> Inl e
      | Inr monthly \<Rightarrow>
          (case (if flt (Fin 0) a
                 then (case fdiv tot a of Inl e \<Rightarrow> Inl e | Inr r \<Rightarrow> Inr (fmul r (Fin 100)))
                 else Inr (Fin 0)) of
             Inl e \<Rightarrow> Inl e
           | Inr rate \<Rightarrow>
               Inr \<lparr>annual_income = a, tax = t, cess = fmul t (lit (4 / 100)),
                    total_tax = tot, monthly_tax = monthly, effective_rate = rate\<rparr>))"
    unfolding tot_def t_def a_def by (rule calculate_tax_unfold)
  show ?thesis
  proof (cases "flt (Fin 0) a")
    case True
    then obtain q where q: "fdiv tot a = Inr q"
      using fdiv_pos_ok by blast
    from True show ?thesis
      unfolding unf mo q by simp
  next
    case False
    then show ?thesis
      unfolding unf mo by simp
  qed
qed

lemma calculate_tax_tax:
  "\<exists>r. calculate_tax m ut = Inr r \<and> tax r = bracket_tax (fmul m (Fin 12))"
  using calculate_tax_fields [of m ut] by blast

lemma round_half_even_nonneg: "0 \<le> r \<Longrightarrow> 0 \<le> round_half_even r"
  by (simp add: round_half_even_def Let_def)

lemma round_f64_nonneg:
  assumes "0 \<le> x"
  shows "round_f64 x = PInf \<or> (\<exists>y\<ge>0. round_f64 x = Fin y)"
proof (cases "x = 0")
  case True
  then show ?thesis by (simp add: round_f64_def)
next
  case False
  with assms have pos: "0 < x" by simp
  define q where "q = pow2 (max (ilog2 \<bar>x\<bar>) (- 1022) - 52)"
  have q: "0 < q" by (simp add: q_def pow2_pos)
  have "0 \<le> \<bar>x\<bar> / q" using q by simp
  then have "0 \<le> round_half_even (\<bar>x\<bar> / q)" by (rule round_half_even_nonneg)
  then have "0 \<le> rat_of_int (round_half_even (\<bar>x\<bar> / q)) * q"
    using q by simp
  then show ?thesis
    using pos unfolding round_f64_def Let_def q_def [symmetric] by auto
qed

lemma annual_cases:
  assumes "fle (Fin 0) m"
  obtains y where "fmul m (Fin 12) = Fin y" and "0 \<le> y" | "fmul m (Fin 12) = PInf"
proof (cases rule: nonneg_cases [OF assms])
  case (1 x)
  then have "0 \<le> x * 12" by simp
  from round_f64_nonneg [OF this] 1 that show ?thesis by auto
next
  case 2
  with that show ?thesis by (simp add: signed_inf_def)
qed

lemma bracket_tax_tiers:
  "(fle a (Fin 300000) \<longrightarrow> bracket_tax a = Fin 0)
   \<and> (flt (Fin 300000) a \<and> fle a (Fin 600000) \<longrightarrow>
        bracket_tax a = fmul (fsub a (Fin 300000)) (lit (5 / 100)))
   \<and> (flt (Fin 600000) a \<and> fle a (Fin 900000) \<longrightarrow>
        bracket_tax a = fadd (Fin 15000) (fmul (fsub a (Fin 600000)) (lit (10 / 100))))
   \<and> (flt (Fin 900000) a \<and> fle a (Fin 1200000) \<longrightarrow>
        bracket_tax a = fadd (Fin 45000) (fmul (fsub a (Fin 900000)) (lit (15 / 100))))
   \<and> (flt (Fin 1200000) a \<and> fle a (Fin 1500000) \<longrightarrow>
        bracket_tax a = fadd (Fin 90000) (fmul (fsub a (Fin 1200000)) (lit (20 / 100))))
   \<and> (flt (Fin 1500000) a \<longrightarrow>
        bracket_tax a = fadd (Fin 150000) (fmul (fsub a (Fin 1500000)) (lit (30 / 100))))"
  by (cases a) (simp_all add: bracket_tax_def)

section \<open>Rounding is monotone\<close>

lemma round_half_even_of_int [simp]: "round_half_even (of_int k) = k"
  by (simp add: round_half_even_def)

lemma round_half_even_mono:
  assumes "r \<le> s"
  shows "round_half_even r \<le> round_half_even s"
proof -
  have fl: "\<lfloor>r\<rfloor> \<le> \<lfloor>s\<rfloor>" using assms by (rule floor_mono)
  show ?thesis
  proof (cases "\<lfloor>r\<rfloor> = \<lfloor>s\<rfloor>")
    case True
    with assms show ?thesis
      by (auto simp: round_half_even_def Let_def)
  next
    case False
    with fl have "\<lfloor>r\<rfloor> + 1 \<le> \<lfloor>s\<rfloor>" by simp
    moreover have "round_half_even r \<le> \<lfloor>r\<rfloor> + 1"
      by (auto simp: round_half_even_def Let_def)
    moreover have "\<lfloor>s\<rfloor> \<le> round_half_even s"
      by (auto simp: round_half_even_def Let_def)
    ultimately show ?thesis by linarith
  qed
qed

lemma round_half_even_le: "r \<le> of_int k \<Longrightarrow> round_half_even r \<le> k"
  using round_half_even_mono [of r "of_int k"] by simp

lemma round_half_even_ge: "of_int k \<le> r \<Longrightarrow> k \<le> round_half_even r"
  using round_half_even_mono [of "of_int k" r] by simp

lemma f64_quantum_pos: "0 < f64_quantum x"
  by (simp add: f64_quantum_def pow2_pos)

lemma pow2_52: "pow2 (e - 52) * 2 ^ 52 = pow2 e"
proof -
  have "pow2 e = pow2 ((e - 52) + 52)"
    by (rule arg_cong [where f = pow2]) simp
  also have "\<dots> = pow2 (e - 52) * pow2 52" by (rule pow2_add)
  finally show ?thesis by (simp add: pow2_def)
qed

lemma pow2_53: "pow2 (e - 52) * 2 ^ 53 = pow2 (e + 1)"
proof -
  have "pow2 (e + 1) = pow2 ((e - 52) + 53)"
    by (rule arg_cong [where f = pow2]) simp
  also have "\<dots> = pow2 (e - 52) * pow2 53" by (rule pow2_add)
  finally show ?thesis by (simp add: pow2_def)
qed

text \<open>The significand has at most 53 bits, and exactly 53 outside the subnormal range.\<close>

lemma significand_le:
  assumes "0 < x"
  shows "round_half_even (\<bar>x\<bar> / f64_quantum x) \<le> 2 ^ 53"
proof -
  define e where "e = max (ilog2 \<bar>x\<bar>) (- 1022)"
  have q: "f64_quantum x = pow2 (e - 52)" by (simp add: f64_quantum_def e_def)
  have "x < pow2 (ilog2 x + 1)" using ilog2_bounds [OF assms] by simp
  also have "\<dots> \<le> pow2 (e + 1)" using assms by (intro pow2_mono) (simp add: e_def)
  also have "\<dots> = pow2 (e - 52) * 2 ^ 53" by (rule pow2_53 [symmetric])
  finally have "x / pow2 (e - 52) \<le> 2 ^ 53"
    using pow2_pos [of "e - 52"] by (simp add: field_simps)
  then have "\<bar>x\<bar> / f64_quantum x \<le> of_int (2 ^ 53)"
    using assms by (simp add: q)
  then show ?thesis by (rule round_half_even_le)
qed

lemma significand_ge:
  assumes "0 < x" and "- 1022 \<le> ilog2 x"
  shows "2 ^ 52 \<le> round_half_even (\<bar>x\<bar> / f64_quantum x)"
proof -
  have q: "f64_quantum x = pow2 (ilog2 x - 52)"
    using assms by (simp add: f64_quantum_def max_def)
  have "pow2 (ilog2 x - 52) * 2 ^ 52 = pow2 (ilog2 x)" by (rule pow2_52)
  also have "\<dots> \<le> x" using ilog2_bounds [OF assms(1)] by simp
  finally have "2 ^ 52 \<le> x / pow2 (ilog2 x - 52)"
    using pow2_pos [of "ilog2 x - 52"] by (simp add: field_simps)
  then have "of_int (2 ^ 52) \<le> \<bar>x\<bar> / f64_quantum x"
    using assms by (simp add: q)
  then show ?thesis by (rule round_half_even_ge)
qed

lemma f64_nearest_le:
  assumes "0 < x"
  shows "f64_nearest x \<le> pow2 (max (ilog2 x) (- 1022) + 1)"
proof -
  have "f64_nearest x \<le> of_int (2 ^ 53) * f64_quantum x"
    unfolding f64_nearest_def using significand_le [OF assms] f64_quantum_pos [of x]
    by (intro mult_right_mono) (simp_all only: of_int_le_iff)
  also have "\<dots> = pow2 (max (ilog2 x) (- 1022) + 1)"
    using assms pow2_53 [of "max (ilog2 x) (- 1022)"]
    by (simp add: f64_quantum_def mult.commute)
  finally show ?thesis .
qed

lemma f64_nearest_ge:
  assumes "0 < x" and "- 1022 \<le> ilog2 x"
  shows "pow2 (ilog2 x) \<le> f64_nearest x"
proof -
  have "pow2 (ilog2 x) = of_int (2 ^ 52) * f64_quantum x"
    using assms pow2_52 [of "ilog2 x"]
    by (simp add: f64_quantum_def max_def mult.commute)
  also have "\<dots> \<le> f64_nearest x"
    unfolding f64_nearest_def using significand_ge [OF assms] f64_quantum_pos [of x]
    by (intro mult_right_mono) (simp_all only: of_int_le_iff)
  finally show ?thesis .
qed

lemma f64_nearest_nonneg: "0 \<le> x \<Longrightarrow> 0 \<le> f64_nearest x"
  unfolding f64_nearest_def using f64_quantum_pos [of x]
  by (intro mult_nonneg_nonneg) (simp_all add: round_half_even_nonneg)

text \<open>The overflow test of \<open>round_f64\<close> is the test that the nearest multiple reaches \<open>2 ^ 1024\<close>.\<close>

lemma round_f64_pos:
  assumes "0 < x"
  shows "round_f64 x = (if pow2 1024 \<le> f64_nearest x then PInf else Fin (f64_nearest x))"
proof -
  define e where "e = max (ilog2 \<bar>x\<bar>) (- 1022)"
  define n where "n = round_half_even (\<bar>x\<bar> / f64_quantum x)"
  have ex: "e = max (ilog2 x) (- 1022)" using assms by (simp add: e_def)
  have q: "f64_quantum x = pow2 (e - 52)" by (simp add: f64_quantum_def e_def)
  have v: "f64_nearest x = of_int n * pow2 (e - 52)"
    by (simp add: f64_nearest_def n_def q)
  have r: "round_f64 x =
      (if 1024 \<le> e \<or> (e = 1023 \<and> 2 ^ 53 \<le> n) then PInf else Fin (f64_nearest x))"
    using assms
    unfolding round_f64_def Let_def f64_nearest_def f64_quantum_def e_def n_def
    by auto
  have "(1024 \<le> e \<or> (e = 1023 \<and> 2 ^ 53 \<le> n)) \<longleftrightarrow> pow2 1024 \<le> f64_nearest x"
  proof
    assume "1024 \<le> e \<or> (e = 1023 \<and> 2 ^ 53 \<le> n)"
    then show "pow2 1024 \<le> f64_nearest x"
    proof
      assume h: "1024 \<le> e"
      then have il: "e = ilog2 x" by (simp add: ex max_def split: if_splits)
      have "pow2 1024 \<le> pow2 e" using h by (rule pow2_mono)
      also have "\<dots> \<le> f64_nearest x"
        unfolding il using assms h il by (intro f64_nearest_ge) simp_all
      finally show ?thesis .
    next
      assume h: "e = 1023 \<and> 2 ^ 53 \<le> n"
      have "pow2 1024 = of_int (2 ^ 53) * pow2 (e - 52)"
        using h pow2_53 [of 1023] by (simp add: mult.commute)
      also have "\<dots> \<le> of_int n * pow2 (e - 52)"
        using h pow2_pos [of "e - 52"]
        by (intro mult_right_mono) (simp_all only: of_int_le_iff)
      finally show ?thesis by (simp add: v)
    qed
  next
    assume h: "pow2 1024 \<le> f64_nearest x"
    show "1024 \<le> e \<or> (e = 1023 \<and> 2 ^ 53 \<le> n)"
    proof (rule ccontr)
      assume "\<not> ?thesis"
      then have c: "e \<le> 1022 \<or> (e = 1023 \<and> n < 2 ^ 53)" by auto
      then have "f64_nearest x < pow2 1024"
      proof
        assume "e \<le> 1022"
        have "f64_nearest x \<le> pow2 (e + 1)"
          using f64_nearest_le [OF assms] by (simp add: ex)
        also have "\<dots> < pow2 1024"
          using \<open>e \<le> 1022\<close> by (intro pow2_strict_mono) simp
        finally show ?thesis .
      next
        assume h': "e = 1023 \<and> n < 2 ^ 53"
        have "of_int n * pow2 (e - 52) < of_int (2 ^ 53) * pow2 (e - 52)"
          using h' pow2_pos [of "e - 52"]
          by (intro mult_strict_right_mono) (simp_all only: of_int_less_iff)
        also have "\<dots> = pow2 1024"
          using h' pow2_53 [of 1023] by (simp add: mult.commute)
        finally show ?thesis by (simp add: v)
      qed
      with h show False by simp
    qed
  qed
  with r show ?thesis by simp
qed

lemma f64_nearest_mono:
  assumes "0 < x" and "x \<le> y"
  shows "f64_nearest x \<le> f64_nearest y"
proof -
  have y: "0 < y" using assms by simp
  define ex where "ex = max (ilog2 x) (- 1022)"
  define ey where "ey = max (ilog2 y) (- 1022)"
  have le: "ex \<le> ey"
    using ilog2_mono [OF assms] by (simp add: ex_def ey_def)
  have qx: "f64_quantum x = pow2 (ex - 52)" using assms by (simp add: f64_quantum_def ex_def)
  have qy: "f64_quantum y = pow2 (ey - 52)" using y by (simp add: f64_quantum_def ey_def)
  show ?thesis
  proof (cases "ex = ey")
    case True
    then have qq: "f64_quantum x = f64_quantum y" by (simp add: qx qy)
    have "\<bar>x\<bar> / f64_quantum y \<le> \<bar>y\<bar> / f64_quantum y"
      using assms f64_quantum_pos [of y] by (simp add: divide_right_mono)
    then have "round_half_even (\<bar>x\<bar> / f64_quantum y) \<le> round_half_even (\<bar>y\<bar> / f64_quantum y)"
      by (rule round_half_even_mono)
    then show ?thesis
      unfolding f64_nearest_def qq using f64_quantum_pos [of y]
      by (intro mult_right_mono) (simp_all only: of_int_le_iff)
  next
    case False
    with le have lt: "ex + 1 \<le> ey" by simp
    then have "- 1022 < ey" by (simp add: ex_def)
    then have il: "ey = ilog2 y" "- 1022 \<le> ilog2 y"
      by (simp_all add: ey_def max_def split: if_splits)
    have "f64_nearest x \<le> pow2 (ex + 1)"
      using f64_nearest_le [OF assms(1)] by (simp add: ex_def)
    also have "\<dots> \<le> pow2 ey" using lt by (rule pow2_mono)
    also have "\<dots> \<le> f64_nearest y"
      unfolding il(1) using y il(2) by (rule f64_nearest_ge)
    finally show ?thesis .
  qed
qed

lemma round_f64_mono:
  assumes "0 \<le> x" and "x \<le> y"
  shows "fle (round_f64 x) (round_f64 y)"
proof (cases "x = 0")
  case True
  have "0 \<le> y" using assms by simp
  moreover have "round_f64 x = Fin 0"
    by (simp add: True round_f64_def)
  ultimately show ?thesis
    using round_f64_nonneg [of y] by auto
next
  case False
  with assms have x: "0 < x" and y: "0 < y" by simp_all
  have m: "f64_nearest x \<le> f64_nearest y"
    using x assms(2) by (rule f64_nearest_mono)
  show ?thesis
    unfolding round_f64_pos [OF x] round_f64_pos [OF y] using m by auto
qed

section \<open>The float operations on non-negative values\<close>

lemma fle_trans: "fle a b \<Longrightarrow> fle b c \<Longrightarrow> fle a c"
  by (cases a; cases b; cases c) auto

lemma fle_refl: "a \<noteq> NaN \<Longrightarrow> fle a a"
  by (cases a) auto

lemma round_f64_nn: "0 \<le> x \<Longrightarrow> fle (Fin 0) (round_f64 x)"
  using round_f64_nonneg [of x] by auto

lemma fadd_nn: "fle (Fin 0) a \<Longrightarrow> fle (Fin 0) b \<Longrightarrow> fle (Fin 0) (fadd a b)"
  by (cases a; cases b) (auto intro: round_f64_nn)

lemma fmul_nn: "fle (Fin 0) a \<Longrightarrow> 0 < c \<Longrightarrow> fle (Fin 0) (fmul a (Fin c))"
  by (cases a) (auto intro: round_f64_nn simp: signed_inf_def)

lemma fsub_nn: "fle (Fin t) a \<Longrightarrow> fle (Fin 0) (fsub a (Fin t))"
  by (cases a) (auto intro: round_f64_nn simp: fsub_def)

lemma fadd_mono:
  assumes "fle (Fin 0) a" "fle (Fin 0) b" "fle a a'" "fle b b'"
  shows "fle (fadd a b) (fadd a' b')"
proof -
  have n: "fadd a b \<noteq> NaN"
    using fadd_nn [OF assms(1,2)] by auto
  show ?thesis
  proof (cases "a' = PInf \<or> b' = PInf")
    case True
    then have "fadd a' b' = PInf"
      using assms by (cases a; cases b; cases a'; cases b') auto
    with n show ?thesis by (cases "fadd a b") auto
  next
    case False
    with assms obtain x y x' y' where
      "a = Fin x" "b = Fin y" "a' = Fin x'" "b' = Fin y'"
      by (cases a; cases b; cases a'; cases b') auto
    with assms show ?thesis
      by (auto intro: round_f64_mono)
  qed
qed

lemma fmul_mono:
  assumes "fle (Fin 0) a" "fle a a'" "0 < c"
  shows "fle (fmul a (Fin c)) (fmul a' (Fin c))"
proof -
  have n: "fmul a (Fin c) \<noteq> NaN"
    using fmul_nn [OF assms(1,3)] by auto
  show ?thesis
  proof (cases "a' = PInf")
    case True
    then have "fmul a' (Fin c) = PInf"
      using assms by (simp add: signed_inf_def)
    with n show ?thesis by (cases "fmul a (Fin c)") auto
  next
    case False
    with assms obtain x x' where "a = Fin x" "a' = Fin x'"
      by (cases a; cases a') auto
    with assms show ?thesis
      by (auto intro!: round_f64_mono mult_right_mono)
  qed
qed

lemma fsub_mono:
  assumes "fle (Fin t) a" "fle a a'"
  shows "fle (fsub a (Fin t)) (fsub a' (Fin t))"
proof -
  have n: "fsub a (Fin t) \<noteq> NaN"
    using fsub_nn [OF assms(1)] by auto
  show ?thesis
  proof (cases "a' = PInf")
    case True
    then have "fsub a' (Fin t) = PInf"
      by (simp add: fsub_def)
    with n show ?thesis by (cases "fsub a (Fin t)") auto
  next
    case False
    with assms obtain x x' where "a = Fin x" "a' = Fin x'"
      by (cases a; cases a') auto
    with assms show ?thesis
      by (auto simp: fsub_def intro!: round_f64_mono)
  qed
qed

section \<open>The bracket schedule is monotone\<close>

text \<open>The doubles that the rate literals of \<open>calculate_tax\<close> denote.\<close>

lemma rate_values:
  "lit (4 / 100) = Fin (5764607523034235 / 144115188075855872)"
  "lit (5 / 100) = Fin (3602879701896397 / 72057594037927936)"
  "lit (10 / 100) = Fin (3602879701896397 / 36028797018963968)"
  "lit (15 / 100) = Fin (5404319552844595 / 36028797018963968)"
  "lit (20 / 100) = Fin (3602879701896397 / 18014398509481984)"
  "lit (30 / 100) = Fin (5404319552844595 / 18014398509481984)"
  by code_simp+

text \<open>One tier: \<open>k + (a - t) * c\<close> on the incomes from \<open>t\<close> on.\<close>

lemma tier_nn:
  assumes "fle (Fin t) a" "0 < c"
  shows "fle (Fin 0) (fmul (fsub a (Fin t)) (Fin c))"
  using assms by (intro fmul_nn fsub_nn)

lemma tier_mono:
  assumes "fle (Fin t) a" "fle a b" "0 < c"
  shows "fle (fmul (fsub a (Fin t)) (Fin c)) (fmul (fsub b (Fin t)) (Fin c))"
  using assms by (intro fmul_mono fsub_mono fsub_nn)

lemma tier_add_mono:
  assumes "fle (Fin t) a" "fle a b" "0 < c" "0 \<le> k"
  shows "fle (fadd (Fin k) (fmul (fsub a (Fin t)) (Fin c)))
             (fadd (Fin k) (fmul (fsub b (Fin t)) (Fin c)))"
  using assms by (intro fadd_mono tier_mono tier_nn) simp_all

lemma tier_add_lb:
  assumes "fle (Fin t) a" "0 < c" "0 \<le> k" "round_f64 k = Fin k"
  shows "fle (Fin k) (fadd (Fin k) (fmul (fsub a (Fin t)) (Fin c)))"
proof -
  have "fle (fadd (Fin k) (Fin 0)) (fadd (Fin k) (fmul (fsub a (Fin t)) (Fin c)))"
    using assms by (intro fadd_mono tier_nn) simp_all
  then show ?thesis using assms(4) by simp
qed

lemma base_values:
  "round_f64 15000 = Fin 15000" "round_f64 45000 = Fin 45000"
  "round_f64 90000 = Fin 90000" "round_f64 150000 = Fin 150000"
  by code_simp+

lemma tier_tops:
  "fmul (fsub (Fin 600000) (Fin 300000)) (lit (5 / 100)) = Fin 15000"
  "fadd (Fin 15000) (fmul (fsub (Fin 900000) (Fin 600000)) (lit (10 / 100))) = Fin 45000"
  "fadd (Fin 45000) (fmul (fsub (Fin 1200000) (Fin 900000)) (lit (15 / 100))) = Fin 90000"
  "fadd (Fin 90000) (fmul (fsub (Fin 1500000) (Fin 1200000)) (lit (20 / 100))) = Fin 150000"
  by code_simp+

lemma not_fle_Fin: "a \<noteq> NaN \<Longrightarrow> \<not> fle a (Fin t) \<Longrightarrow> flt (Fin t) a"
  by (cases a) auto

lemma flt_imp_fle: "flt a b \<Longrightarrow> fle a b"
  by (cases a; cases b) auto

lemma flt_not_fle: "flt (Fin t) a \<Longrightarrow> \<not> fle a (Fin t)"
  by (cases a) auto

lemma flt_Fin_trans: "s \<le> t \<Longrightarrow> flt (Fin t) a \<Longrightarrow> flt (Fin s) a"
  by (cases a) auto

lemma fle_not_NaN: "fle a b \<Longrightarrow> a \<noteq> NaN \<and> b \<noteq> NaN"
  by (cases a; cases b) auto

text \<open>The tax of each tier, as \<open>bracket_tax\<close> selects it.\<close>

lemma bracket_tax_1: "fle a (Fin 300000) \<Longrightarrow> bracket_tax a = Fin 0"
  by (simp add: bracket_tax_def)

lemma bracket_tax_2:
  "flt (Fin 300000) a \<Longrightarrow> fle a (Fin 600000) \<Longrightarrow>
     bracket_tax a = fmul (fsub a (Fin 300000)) (lit (5 / 100))"
  using bracket_tax_tiers [of a] by blast

lemma bracket_tax_3:
  "flt (Fin 600000) a \<Longrightarrow> fle a (Fin 900000) \<Longrightarrow>
     bracket_tax a = fadd (Fin 15000) (fmul (fsub a (Fin 600000)) (lit (10 / 100)))"
  using bracket_tax_tiers [of a] by blast

lemma bracket_tax_4:
  "flt (Fin 900000) a \<Longrightarrow> fle a (Fin 1200000) \<Longrightarrow>
     bracket_tax a = fadd (Fin 45000) (fmul (fsub a (Fin 900000)) (lit (15 / 100)))"
  using bracket_tax_tiers [of a] by blast

lemma bracket_tax_5:
  "flt (Fin 1200000) a \<Longrightarrow> fle a (Fin 1500000) \<Longrightarrow>
     bracket_tax a = fadd (Fin 90000) (fmul (fsub a (Fin 1200000)) (lit (20 / 100)))"
  using bracket_tax_tiers [of a] by blast

lemma bracket_tax_6:
  "flt (Fin 1500000) a \<Longrightarrow>
     bracket_tax a = fadd (Fin 150000) (fmul (fsub a (Fin 1500000)) (lit (30 / 100)))"
  using bracket_tax_tiers [of a] by blast

text \<open>Up to each boundary the tax is at most the base of the next tier.\<close>

lemma bracket_tax_le_15000:
  assumes "fle a (Fin 600000)"
  shows "fle (bracket_tax a) (Fin 15000)"
proof (cases "fle a (Fin 300000)")
  case True
  then show ?thesis by (simp add: bracket_tax_1)
next
  case False
  then have lo: "flt (Fin 300000) a"
    using assms fle_not_NaN not_fle_Fin by blast
  have "fle (fmul (fsub a (Fin 300000)) (lit (5 / 100)))
            (fmul (fsub (Fin 600000) (Fin 300000)) (lit (5 / 100)))"
    unfolding rate_values by (rule tier_mono [OF flt_imp_fle [OF lo] assms]) simp
  then show ?thesis
    by (simp only: bracket_tax_2 [OF lo assms] tier_tops)
qed

lemma bracket_tax_le_45000:
  assumes "fle a (Fin 900000)"
  shows "fle (bracket_tax a) (Fin 45000)"
proof (cases "fle a (Fin 600000)")
  case True
  then have "fle (bracket_tax a) (Fin 15000)" by (rule bracket_tax_le_15000)
  then show ?thesis by (rule fle_trans) simp
next
  case False
  then have lo: "flt (Fin 600000) a"
    using assms fle_not_NaN not_fle_Fin by blast
  have "fle (fadd (Fin 15000) (fmul (fsub a (Fin 600000)) (lit (10 / 100))))
            (fadd (Fin 15000) (fmul (fsub (Fin 900000) (Fin 600000)) (lit (10 / 100))))"
    unfolding rate_values by (rule tier_add_mono [OF flt_imp_fle [OF lo] assms]) simp_all
  then show ?thesis
    by (simp only: bracket_tax_3 [OF lo assms] tier_tops)
qed

lemma bracket_tax_le_90000:
  assumes "fle a (Fin 1200000)"
  shows "fle (bracket_tax a) (Fin 90000)"
proof (cases "fle a (Fin 900000)")
  case True
  then have "fle (bracket_tax a) (Fin 45000)" by (rule bracket_tax_le_45000)
  then show ?thesis by (rule fle_trans) simp
next
  case False
  then have lo: "flt (Fin 900000) a"
    using assms fle_not_NaN not_fle_Fin by blast
  have "fle (fadd (Fin 45000) (fmul (fsub a (Fin 900000)) (lit (15 / 100))))
            (fadd (Fin 45000) (fmul (fsub (Fin 1200000) (Fin 900000)) (lit (15 / 100))))"
    unfolding rate_values by (rule tier_add_mono [OF flt_imp_fle [OF lo] assms]) simp_all
  then show ?thesis
    by (simp only: bracket_tax_4 [OF lo assms] tier_tops)
qed

lemma bracket_tax_le_150000:
  assumes "fle a (Fin 1500000)"
  shows "fle (bracket_tax a) (Fin 150000)"
proof (cases "fle a (Fin 1200000)")
  case True
  then have "fle (bracket_tax a) (Fin 90000)" by (rule bracket_tax_le_90000)
  then show ?thesis by (rule fle_trans) simp
next
  case False
  then have lo: "flt (Fin 1200000) a"
    using assms fle_not_NaN not_fle_Fin by blast
  have "fle (fadd (Fin 90000) (fmul (fsub a (Fin 1200000)) (lit (20 / 100))))
            (fadd (Fin 90000) (fmul (fsub (Fin 1500000) (Fin 1200000)) (lit (20 / 100))))"
    unfolding rate_values by (rule tier_add_mono [OF flt_imp_fle [OF lo] assms]) simp_all
  then show ?thesis
    by (simp only: bracket_tax_5 [OF lo assms] tier_tops)
qed

text \<open>Above each boundary the tax is at least the base of the tier that starts there.\<close>

lemma bracket_tax_ge_150000:
  assumes "flt (Fin 1500000) a"
  shows "fle (Fin 150000) (bracket_tax a)"
  unfolding bracket_tax_6 [OF assms] rate_values
  using assms by (intro tier_add_lb flt_imp_fle base_values) simp_all

lemma bracket_tax_ge_90000:
  assumes "flt (Fin 1200000) a"
  shows "fle (Fin 90000) (bracket_tax a)"
proof (cases "fle a (Fin 1500000)")
  case True
  show ?thesis
    unfolding bracket_tax_5 [OF assms True] rate_values
    using assms by (intro tier_add_lb flt_imp_fle base_values) simp_all
next
  case False
  then have "flt (Fin 1500000) a"
    using assms by (cases a) auto
  then have "fle (Fin 150000) (bracket_tax a)" by (rule bracket_tax_ge_150000)
  then show ?thesis by (rule fle_trans [rotated]) simp
qed

lemma bracket_tax_ge_45000:
  assumes "flt (Fin 900000) a"
  shows "fle (Fin 45000) (bracket_tax a)"
proof (cases "fle a (Fin 1200000)")
  case True
  show ?thesis
    unfolding bracket_tax_4 [OF assms True] rate_values
    using assms by (intro tier_add_lb flt_imp_fle base_values) simp_all
next
  case False
  then have "flt (Fin 1200000) a"
    using assms by (cases a) auto
  then have "fle (Fin 90000) (bracket_tax a)" by (rule bracket_tax_ge_90000)
  then show ?thesis by (rule fle_trans [rotated]) simp
qed

lemma bracket_tax_ge_15000:
  assumes "flt (Fin 600000) a"
  shows "fle (Fin 15000) (bracket_tax a)"
proof (cases "fle a (Fin 900000)")
  case True
  show ?thesis
    unfolding bracket_tax_3 [OF assms True] rate_values
    using assms by (intro tier_add_lb flt_imp_fle base_values) simp_all
next
  case False
  then have "flt (Fin 900000) a"
    using assms by (cases a) auto
  then have "fle (Fin 45000) (bracket_tax a)" by (rule bracket_tax_ge_45000)
  then show ?thesis by (rule fle_trans [rotated]) simp
qed

lemma bracket_tax_ge_0:
  assumes "flt (Fin 300000) a"
  shows "fle (Fin 0) (bracket_tax a)"
proof (cases "fle a (Fin 600000)")
  case True
  show ?thesis
    unfolding bracket_tax_2 [OF assms True] rate_values
    using assms by (intro tier_nn flt_imp_fle) simp_all
next
  case False
  then have "flt (Fin 600000) a"
    using assms by (cases a) auto
  then have "fle (Fin 15000) (bracket_tax a)" by (rule bracket_tax_ge_15000)
  then show ?thesis by (rule fle_trans [rotated]) simp
qed

lemma bracket_tax_nn: "a \<noteq> NaN \<Longrightarrow> fle (Fin 0) (bracket_tax a)"
  using bracket_tax_1 [of a] bracket_tax_ge_0 [of a] not_fle_Fin [of a 300000]
  by (cases "fle a (Fin 300000)") auto

lemma flt_fle_trans: "flt (Fin t) a \<Longrightarrow> fle a b \<Longrightarrow> flt (Fin t) b"
  by (cases a; cases b) auto

lemma bracket_tax_mono:
  assumes "fle a b"
  shows "fle (bracket_tax a) (bracket_tax b)"
proof -
  have nan: "a \<noteq> NaN" "b \<noteq> NaN"
    using assms fle_not_NaN by blast+
  consider (t1) "fle a (Fin 300000)"
    | (t2) "flt (Fin 300000) a" "fle a (Fin 600000)"
    | (t3) "flt (Fin 600000) a" "fle a (Fin 900000)"
    | (t4) "flt (Fin 900000) a" "fle a (Fin 1200000)"
    | (t5) "flt (Fin 1200000) a" "fle a (Fin 1500000)"
    | (t6) "flt (Fin 1500000) a"
    using not_fle_Fin [OF nan(1)] by blast
  then show ?thesis
  proof cases
    case t1
    then show ?thesis
      using bracket_tax_nn [OF nan(2)] by (simp add: bracket_tax_1)
  next
    case t2
    have lb: "flt (Fin 300000) b" using t2(1) assms by (rule flt_fle_trans)
    show ?thesis
    proof (cases "fle b (Fin 600000)")
      case True
      show ?thesis
        unfolding bracket_tax_2 [OF t2] bracket_tax_2 [OF lb True] rate_values
        by (rule tier_mono [OF flt_imp_fle [OF t2(1)] assms]) simp
    next
      case False
      then have "flt (Fin 600000) b" using nan(2) by (simp add: not_fle_Fin)
      then have "fle (Fin 15000) (bracket_tax b)" by (rule bracket_tax_ge_15000)
      with bracket_tax_le_15000 [OF t2(2)] show ?thesis by (rule fle_trans)
    qed
  next
    case t3
    have lb: "flt (Fin 600000) b" using t3(1) assms by (rule flt_fle_trans)
    show ?thesis
    proof (cases "fle b (Fin 900000)")
      case True
      show ?thesis
        unfolding bracket_tax_3 [OF t3] bracket_tax_3 [OF lb True] rate_values
        by (rule tier_add_mono [OF flt_imp_fle [OF t3(1)] assms]) simp_all
    next
      case False
      then have "flt (Fin 900000) b" using nan(2) by (simp add: not_fle_Fin)
      then have "fle (Fin 45000) (bracket_tax b)" by (rule bracket_tax_ge_45000)
      with bracket_tax_le_45000 [OF t3(2)] show ?thesis by (rule fle_trans)
    qed
  next
    case t4
    have lb: "flt (Fin 900000) b" using t4(1) assms by (rule flt_fle_trans)
    show ?thesis
    proof (cases "fle b (Fin 1200000)")
      case True
      show ?thesis
        unfolding bracket_tax_4 [OF t4] bracket_tax_4 [OF lb True] rate_values
        by (rule tier_add_mono [OF flt_imp_fle [OF t4(1)] assms]) simp_all
    next
      case False
      then have "flt (Fin 1200000) b" using nan(2) by (simp add: not_fle_Fin)
      then have "fle (Fin 90000) (bracket_tax b)" by (rule bracket_tax_ge_90000)
      with bracket_tax_le_90000 [OF t4(2)] show ?thesis by (rule fle_trans)
    qed
  next
    case t5
    have lb: "flt (Fin 1200000) b" using t5(1) assms by (rule flt_fle_trans)
    show ?thesis
    proof (cases "fle b (Fin 1500000)")
      case True
      show ?thesis
        unfolding bracket_tax_5 [OF t5] bracket_tax_5 [OF lb True] rate_values
        by (rule tier_add_mono [OF flt_imp_fle [OF t5(1)] assms]) simp_all
    next
      case False
      then have "flt (Fin 1500000) b" using nan(2) by (simp add: not_fle_Fin)
      then have "fle (Fin 150000) (bracket_tax b)" by (rule bracket_tax_ge_150000)
      with bracket_tax_le_150000 [OF t5(2)] show ?thesis by (rule fle_trans)
    qed
  next
    case t6
    have lb: "flt (Fin 1500000) b" using t6 assms by (rule flt_fle_trans)
    show ?thesis
      unfolding bracket_tax_6 [OF t6] bracket_tax_6 [OF lb] rate_values
      by (rule tier_add_mono [OF flt_imp_fle [OF t6] assms]) simp_all
  qed
qed

lemma with_cess_mono:
  assumes "fle (Fin 0) t" "fle t t'"
  shows "fle (fadd t (fmul t (lit (4 / 100)))) (fadd t' (fmul t' (lit (4 / 100))))"
  unfolding rate_values using assms
  by (intro fadd_mono fmul_mono fmul_nn) simp_all

section \<open>A positive tax has a positive cess\<close>

text \<open>
  Doubles of magnitude at least \<open>2 ^ k\<close> are multiples of \<open>2 ^ (k - 52)\<close>, so a tax
  above the first boundary is bounded away from 0 and its cess does not underflow.
\<close>

lemma f64_nearest_grid:
  assumes "0 < z" and "pow2 k \<le> f64_nearest z"
  shows "\<exists>N::int. f64_nearest z = of_int N * pow2 (k - 52)"
proof -
  define e where "e = max (ilog2 z) (- 1022)"
  have q: "f64_quantum z = pow2 (e - 52)"
    using assms(1) by (simp add: f64_quantum_def e_def)
  show ?thesis
  proof (cases "k \<le> e")
    case True
    define j where "j = nat (e - k)"
    have "pow2 (e - 52) = pow2 (int j + (k - 52))"
      using True by (intro arg_cong [where f = pow2]) (simp add: j_def)
    also have "\<dots> = pow2 (int j) * pow2 (k - 52)"
      by (rule pow2_add)
    also have "\<dots> = of_int (2 ^ j) * pow2 (k - 52)"
      by (simp add: pow2_nat)
    finally have "f64_nearest z =
        of_int (round_half_even (\<bar>z\<bar> / f64_quantum z) * 2 ^ j) * pow2 (k - 52)"
      by (simp add: f64_nearest_def q)
    then show ?thesis by blast
  next
    case False
    have "f64_nearest z \<le> pow2 (e + 1)"
      using f64_nearest_le [OF assms(1)] by (simp add: e_def)
    also have "\<dots> \<le> pow2 k"
      using False by (intro pow2_mono) simp
    finally have "f64_nearest z = pow2 k"
      using assms(2) by simp
    also have "pow2 k = of_int (2 ^ 52) * pow2 (k - 52)"
      using pow2_52 [of k] by (simp add: mult.commute)
    finally show ?thesis by blast
  qed
qed

lemma round_f64_Fin_nearest:
  assumes "0 < z" and "round_f64 z = Fin y"
  shows "y = f64_nearest z"
  using assms(2) unfolding round_f64_pos [OF assms(1)] by (simp split: if_splits)

lemma grid_step:
  fixes p :: rat
  assumes "0 < p" and "a = of_int A * p" and "y = of_int N * p" and "a < y"
  shows "a + p \<le> y"
proof -
  have "of_int A * p < of_int N * p"
    using assms(2-4) by simp
  then have "(of_int A :: rat) < of_int N"
    using assms(1) by (simp only: mult_less_cancel_right_pos)
  then have "A + 1 \<le> N"
    by simp
  then have "(of_int (A + 1) :: rat) \<le> of_int N"
    by (simp only: of_int_le_iff)
  then have "of_int (A + 1) * p \<le> of_int N * p"
    using assms(1) by (intro mult_right_mono) simp_all
  then show ?thesis
    by (simp add: assms(2,3) algebra_simps)
qed

text \<open>The first double above 300000 is \<open>300000 + 2 ^ - 34\<close>.\<close>

lemma above_300000:
  assumes "0 \<le> z" and "round_f64 z = Fin y" and "300000 < y"
  shows "300000 + pow2 (- 34) \<le> y"
proof -
  have z: "0 < z"
    using assms by (cases "z = 0") (auto simp: round_f64_def)
  have y: "y = f64_nearest z"
    using z assms(2) by (rule round_f64_Fin_nearest)
  have "pow2 18 \<le> 300000"
    by (simp add: pow2_def)
  then have "pow2 18 \<le> f64_nearest z"
    using assms(3) by (simp add: y)
  from f64_nearest_grid [OF z this] obtain N :: int
    where N: "y = of_int N * pow2 (- 34)"
    by (auto simp: y)
  have A: "(300000::rat) = of_int (300000 * 2 ^ 34) * pow2 (- 34)"
    by (simp add: pow2_def)
  show ?thesis
    using pow2_pos A N assms(3) by (rule grid_step)
qed

lemma small_values:
  "round_f64 (pow2 (- 34)) = Fin (pow2 (- 34))"
  "fmul (Fin (pow2 (- 34))) (lit (5 / 100)) =
     Fin (3602879701896397 / 1237940039285380274899124224)"
  "fmul (Fin (3602879701896397 / 1237940039285380274899124224)) (lit (4 / 100)) =
     Fin (1152921504606847 / 9903520314283042199192993792)"
  by code_simp+

lemma tier2_positive:
  assumes "0 \<le> z" and "round_f64 z = Fin y" and "300000 < y"
  shows "fle (Fin (3602879701896397 / 1237940039285380274899124224))
             (fmul (fsub (Fin y) (Fin 300000)) (lit (5 / 100)))"
proof -
  have p: "0 \<le> pow2 (- 34)"
    using pow2_pos [of "- 34"] by simp
  have "pow2 (- 34) \<le> y + - 300000"
    using above_300000 [OF assms] by simp
  with p have "fle (round_f64 (pow2 (- 34))) (round_f64 (y + - 300000))"
    by (rule round_f64_mono)
  then have s: "fle (Fin (pow2 (- 34))) (fsub (Fin y) (Fin 300000))"
    by (simp only: small_values fsub_def fneg.simps fadd.simps)
  have "fle (fmul (Fin (pow2 (- 34))) (lit (5 / 100)))
            (fmul (fsub (Fin y) (Fin 300000)) (lit (5 / 100)))"
    unfolding rate_values using p s by (intro fmul_mono) simp_all
  then show ?thesis by (simp only: small_values)
qed

lemma tax_zero_or_positive:
  assumes "fle (Fin 0) m"
  shows "bracket_tax (fmul m (Fin 12)) = Fin 0
         \<or> fle (Fin (3602879701896397 / 1237940039285380274899124224))
               (bracket_tax (fmul m (Fin 12)))"
proof -
  define a where "a = fmul m (Fin 12)"
  have nan: "a \<noteq> NaN"
    unfolding a_def by (cases rule: annual_cases [OF assms]) auto
  consider (t1) "fle a (Fin 300000)"
    | (t2) "flt (Fin 300000) a" "fle a (Fin 600000)"
    | (t3) "flt (Fin 600000) a"
    using not_fle_Fin [OF nan] by blast
  then have "bracket_tax a = Fin 0
         \<or> fle (Fin (3602879701896397 / 1237940039285380274899124224)) (bracket_tax a)"
  proof cases
    case t1
    then show ?thesis by (simp add: bracket_tax_1)
  next
    case t2
    then obtain y where y: "a = Fin y" "300000 < y"
      by (cases a) auto
    obtain x where x: "m = Fin x" "0 \<le> x"
    proof (cases rule: nonneg_cases [OF assms])
      case (1 x)
      then show ?thesis by (rule that)
    next
      case 2
      then have "a = PInf" by (simp add: a_def signed_inf_def)
      with y(1) show ?thesis by simp
    qed
    have r: "round_f64 (x * 12) = Fin y"
      using y(1) x(1) by (simp add: a_def)
    have "0 \<le> x * 12" using x(2) by simp
    then have "fle (Fin (3602879701896397 / 1237940039285380274899124224))
        (fmul (fsub a (Fin 300000)) (lit (5 / 100)))"
      unfolding y(1) using r y(2) by (rule tier2_positive)
    then show ?thesis
      unfolding bracket_tax_2 [OF t2] by (rule disjI2)
  next
    case t3
    then have "fle (Fin 15000) (bracket_tax a)" by (rule bracket_tax_ge_15000)
    then have "fle (Fin (3602879701896397 / 1237940039285380274899124224)) (bracket_tax a)"
      by (rule fle_trans [rotated]) simp
    then show ?thesis ..
  qed
  then show ?thesis by (simp only: a_def)
qed

lemma cess_positive:
  assumes "fle (Fin (3602879701896397 / 1237940039285380274899124224)) t"
  shows "fmul t (lit (4 / 100)) \<noteq> Fin 0"
proof -
  have "fle (fmul (Fin (3602879701896397 / 1237940039285380274899124224)) (lit (4 / 100)))
            (fmul t (lit (4 / 100)))"
    unfolding rate_values using assms by (intro fmul_mono) simp_all
  then have "fle (Fin (1152921504606847 / 9903520314283042199192993792))
                 (fmul t (lit (4 / 100)))"
    by (simp only: small_values)
  then show ?thesis
    by (cases "fmul t (lit (4 / 100))") auto
qed

lemma cess_of_zero: "fmul (Fin 0) (lit (4 / 100)) = Fin 0"
  unfolding rate_values by (simp add: round_f64_def)

section \<open>The claims\<close>

text \<open>
  C2. The result of \<open>calculate_tax\<close> depends on the income alone: two calls with the
  same income return the same record whatever the user type, and the button handler of
  the tax page returns the same for the same income whatever the user type and whatever
  the three 80C deduction amounts entered, which are never subtracted from the income.
  The calculation is a function of its arguments into a result: it has no state to change.
\<close>

theorem calculate_tax_income_only:
  "calculate_tax m ut = calculate_tax m ut'
   \<and> tax_button m ut pf elss lic = tax_button m ut' pf' elss' lic'"
  by (simp add: calculate_tax_def tax_button_def Let_def)

text \<open>
  C10. For every user type other than the string \<open>Student\<close> and every income,
  \<open>get_budget_summary\<close> produces the default split: Essentials 0.40, Savings 0.20,
  Investments 0.20, Discretionary 0.20, each multiplied by the income when the income is
  positive. The string \<open>Student\<close> itself selects another split.
\<close>

theorem get_budget_summary_default:
  "user_type \<noteq> ''Student'' \<Longrightarrow>
     get_budget_summary user_type income =
       (if flt (Fin 0) income
        then [(''Essentials'', fmul (lit (40 / 100)) income),
              (''Savings'', fmul (lit (20 / 100)) income),
              (''Investments'', fmul (lit (20 / 100)) income),
              (''Discretionary'', fmul (lit (20 / 100)) income)]
        else [(''Essentials'', lit (40 / 100)),
              (''Savings'', lit (20 / 100)),
              (''Investments'', lit (20 / 100)),
              (''Discretionary'', lit (20 / 100))])
     \<and> get_budget_summary ''Student'' income \<noteq> get_budget_summary user_type income"
  by (simp add: get_budget_summary_def Let_def)

theorem get_budget_summary_default_witness:
  "''Retired'' \<noteq> ''Student''
   \<and> get_budget_summary ''Retired'' (Fin 0) =
       [(''Essentials'', lit (40 / 100)),
        (''Savings'', lit (20 / 100)),
        (''Investments'', lit (20 / 100)),
        (''Discretionary'', lit (20 / 100))]
   \<and> get_budget_summary ''Student'' (Fin 0) \<noteq> get_budget_summary ''Retired'' (Fin 0)"
  using get_budget_summary_default [of "''Retired''" "Fin 0"] by auto

text \<open>
  C5. At the monthly incomes \<open>300000 / 12\<close>, \<open>600000 / 12\<close>, \<open>900000 / 12\<close>,
  \<open>1200000 / 12\<close> and \<open>1500000 / 12\<close> (the quotients as Python computes them),
  \<open>calculate_tax\<close> returns the base tax 0, 15000, 45000, 90000 and 150000.
\<close>

theorem calculate_tax_boundary_values:
  "(\<exists>m r. fdiv (Fin 300000) (Fin 12) = Inr m \<and> calculate_tax m ut = Inr r \<and> tax r = Fin 0)
   \<and> (\<exists>m r. fdiv (Fin 600000) (Fin 12) = Inr m \<and> calculate_tax m ut = Inr r
          \<and> tax r = Fin 15000)
   \<and> (\<exists>m r. fdiv (Fin 900000) (Fin 12) = Inr m \<and> calculate_tax m ut = Inr r
          \<and> tax r = Fin 45000)
   \<and> (\<exists>m r. fdiv (Fin 1200000) (Fin 12) = Inr m \<and> calculate_tax m ut = Inr r
          \<and> tax r = Fin 90000)
   \<and> (\<exists>m r. fdiv (Fin 1500000) (Fin 12) = Inr m \<and> calculate_tax m ut = Inr r
          \<and> tax r = Fin 150000)"
proof -
  have d: "fdiv (Fin 300000) (Fin 12) = Inr (Fin 25000)"
    "fdiv (Fin 600000) (Fin 12) = Inr (Fin 50000)"
    "fdiv (Fin 900000) (Fin 12) = Inr (Fin 75000)"
    "fdiv (Fin 1200000) (Fin 12) = Inr (Fin 100000)"
    "fdiv (Fin 1500000) (Fin 12) = Inr (Fin 125000)"
    by code_simp+
  have b: "bracket_tax (fmul (Fin 25000) (Fin 12)) = Fin 0"
    "bracket_tax (fmul (Fin 50000) (Fin 12)) = Fin 15000"
    "bracket_tax (fmul (Fin 75000) (Fin 12)) = Fin 45000"
    "bracket_tax (fmul (Fin 100000) (Fin 12)) = Fin 90000"
    "bracket_tax (fmul (Fin 125000) (Fin 12)) = Fin 150000"
    by code_simp+
  show ?thesis
    using calculate_tax_tax [of "Fin 25000" ut] calculate_tax_tax [of "Fin 50000" ut]
      calculate_tax_tax [of "Fin 75000" ut] calculate_tax_tax [of "Fin 100000" ut]
      calculate_tax_tax [of "Fin 125000" ut]
    unfolding d b by blast
qed

text \<open>
  C8. With income 0, \<open>get_budget_summary\<close> returns the fractions themselves: for
  \<open>Student\<close> Essentials 0.50, Education 0.30, Savings 0.20, for \<open>Professional\<close>
  Essentials 0.40, Savings 0.20, Investments 0.20, Discretionary 0.20; added up in the
  order of the dictionary, as Python's \<^verbatim>\<open>sum\<close> does from 0, each gives 1.0.
\<close>

theorem get_budget_summary_zero_income:
  "get_budget_summary ''Student'' (Fin 0) =
     [(''Essentials'', lit (50 / 100)), (''Education'', lit (30 / 100)),
      (''Savings'', lit (20 / 100))]
   \<and> get_budget_summary ''Professional'' (Fin 0) =
     [(''Essentials'', lit (40 / 100)), (''Savings'', lit (20 / 100)),
      (''Investments'', lit (20 / 100)), (''Discretionary'', lit (20 / 100))]
   \<and> foldl fadd (Fin 0) (map snd (get_budget_summary ''Student'' (Fin 0))) = Fin 1
   \<and> foldl fadd (Fin 0) (map snd (get_budget_summary ''Professional'' (Fin 0))) = Fin 1"
proof -
  have "foldl fadd (Fin 0) (map snd (get_budget_summary ''Student'' (Fin 0))) = Fin 1"
    by code_simp
  moreover
  have "foldl fadd (Fin 0) (map snd (get_budget_summary ''Professional'' (Fin 0))) = Fin 1"
    by code_simp
  ultimately show ?thesis
    by (simp add: get_budget_summary_def)
qed



text \<open>
  C1. For a monthly income \<open>m \<ge> 0\<close>, \<open>calculate_tax\<close> forms the annual income
  \<open>a = m * 12\<close> and the base tax is: 0 when \<open>a \<le> 300000\<close>; \<open>(a - 300000) * 0.05\<close> when
  \<open>300000 < a \<le> 600000\<close>; \<open>15000 + (a - 600000) * 0.10\<close> when \<open>600000 < a \<le> 900000\<close>;
  \<open>45000 + (a - 900000) * 0.15\<close> when \<open>900000 < a \<le> 1200000\<close>;
  \<open>90000 + (a - 1200000) * 0.20\<close> when \<open>1200000 < a \<le> 1500000\<close>; and
  \<open>150000 + (a - 1500000) * 0.30\<close> when \<open>1500000 < a\<close>. Every upper bound is inclusive,
  so an income on a boundary is taxed in the lower tier, and one of the six tiers always
  applies. The operations are Python's, on floats.
\<close>

theorem calculate_tax_bracket_schedule:
  assumes "fle (Fin 0) m"
  shows "\<exists>r a. calculate_tax m ut = Inr r \<and> a = fmul m (Fin 12) \<and> annual_income r = a
     \<and> (fle a (Fin 300000) \<longrightarrow> tax r = Fin 0)
     \<and> (flt (Fin 300000) a \<and> fle a (Fin 600000) \<longrightarrow>
          tax r = fmul (fsub a (Fin 300000)) (lit (5 / 100)))
     \<and> (flt (Fin 600000) a \<and> fle a (Fin 900000) \<longrightarrow>
          tax r = fadd (Fin 15000) (fmul (fsub a (Fin 600000)) (lit (10 / 100))))
     \<and> (flt (Fin 900000) a \<and> fle a (Fin 1200000) \<longrightarrow>
          tax r = fadd (Fin 45000) (fmul (fsub a (Fin 900000)) (lit (15 / 100))))
     \<and> (flt (Fin 1200000) a \<and> fle a (Fin 1500000) \<longrightarrow>
          tax r = fadd (Fin 90000) (fmul (fsub a (Fin 1200000)) (lit (20 / 100))))
     \<and> (flt (Fin 1500000) a \<longrightarrow>
          tax r = fadd (Fin 150000) (fmul (fsub a (Fin 1500000)) (lit (30 / 100))))
     \<and> (fle a (Fin 1500000) \<or> flt (Fin 1500000) a)"
proof -
  obtain r where r: "calculate_tax m ut = Inr r"
    "annual_income r = fmul m (Fin 12)" "tax r = bracket_tax (fmul m (Fin 12))"
    using calculate_tax_fields [of m ut] by blast
  have "fle (fmul m (Fin 12)) (Fin 1500000) \<or> flt (Fin 1500000) (fmul m (Fin 12))"
    by (cases rule: annual_cases [OF assms]) auto
  then show ?thesis
    using r bracket_tax_tiers [of "fmul m (Fin 12)"] by simp
qed

theorem calculate_tax_bracket_schedule_witness:
  "fle (Fin 0) (Fin 50000)
   \<and> (\<exists>r. calculate_tax (Fin 50000) ''Student'' = Inr r \<and> annual_income r = Fin 600000
        \<and> tax r = fmul (fsub (Fin 600000) (Fin 300000)) (lit (5 / 100)))"
proof -
  have a: "fmul (Fin 50000) (Fin 12) = Fin 600000"
    by code_simp
  have h: "fle (Fin 0) (Fin 50000)"
    by simp
  from calculate_tax_bracket_schedule [OF h, of "''Student''"] show ?thesis
    unfolding a by auto
qed

text \<open>
  C6. The base tax of \<open>calculate_tax\<close> does not decrease when the income grows: for
  monthly incomes \<open>0 \<le> m1 \<le> m2\<close> both calls return a record, the \<open>tax\<close> for \<open>m1\<close> is
  at most the \<open>tax\<close> for \<open>m2\<close>, and so is the \<open>total_tax\<close>. This is about the doubles
  the code computes, rounding included.
\<close>

theorem calculate_tax_monotone:
  assumes "fle (Fin 0) m1" and "fle m1 m2"
  shows "\<exists>r1 r2. calculate_tax m1 ut1 = Inr r1 \<and> calculate_tax m2 ut2 = Inr r2
           \<and> fle (tax r1) (tax r2) \<and> fle (total_tax r1) (total_tax r2)"
proof -
  obtain r1 where r1: "calculate_tax m1 ut1 = Inr r1"
    "tax r1 = bracket_tax (fmul m1 (Fin 12))"
    "total_tax r1 = fadd (bracket_tax (fmul m1 (Fin 12)))
       (fmul (bracket_tax (fmul m1 (Fin 12))) (lit (4 / 100)))"
    using calculate_tax_fields [of m1 ut1] by blast
  obtain r2 where r2: "calculate_tax m2 ut2 = Inr r2"
    "tax r2 = bracket_tax (fmul m2 (Fin 12))"
    "total_tax r2 = fadd (bracket_tax (fmul m2 (Fin 12)))
       (fmul (bracket_tax (fmul m2 (Fin 12))) (lit (4 / 100)))"
    using calculate_tax_fields [of m2 ut2] by blast
  have a: "fle (fmul m1 (Fin 12)) (fmul m2 (Fin 12))"
    using assms by (intro fmul_mono) simp_all
  then have t: "fle (bracket_tax (fmul m1 (Fin 12))) (bracket_tax (fmul m2 (Fin 12)))"
    by (rule bracket_tax_mono)
  have "fle (Fin 0) (bracket_tax (fmul m1 (Fin 12)))"
    using a fle_not_NaN by (intro bracket_tax_nn) blast
  then have "fle (total_tax r1) (total_tax r2)"
    unfolding r1 r2 using t by (rule with_cess_mono)
  with r1 r2 t show ?thesis by auto
qed

theorem calculate_tax_monotone_witness:
  "fle (Fin 0) (Fin 50000) \<and> fle (Fin 50000) (Fin 75000)
   \<and> (\<exists>r1 r2. calculate_tax (Fin 50000) ''Student'' = Inr r1
         \<and> calculate_tax (Fin 75000) ''Student'' = Inr r2
         \<and> fle (tax r1) (tax r2) \<and> fle (total_tax r1) (total_tax r2))"
proof -
  have h: "fle (Fin 0) (Fin 50000)" "fle (Fin 50000) (Fin 75000)"
    by simp_all
  from calculate_tax_monotone [OF h, of "''Student''" "''Student''"] h show ?thesis
    by blast
qed

text \<open>
  C3. For a monthly income \<open>m \<ge> 0\<close>, \<open>calculate_tax\<close> returns a record whose \<open>tax\<close>
  is the bracket tax of \<open>m * 12\<close>, whose \<open>cess\<close> is \<open>tax * 0.04\<close>, whose
  \<open>total_tax\<close> is \<open>tax + cess\<close> and whose \<open>monthly_tax\<close> is \<open>total_tax / 12\<close>, the
  division being defined; the cess is 0 exactly when the tax is 0. The operations are
  Python's, on floats: a positive tax is never so small that its cess rounds to 0.
\<close>

theorem calculate_tax_cess_total_monthly:
  assumes "fle (Fin 0) m"
  shows "\<exists>r. calculate_tax m ut = Inr r
     \<and> tax r = bracket_tax (fmul m (Fin 12))
     \<and> cess r = fmul (tax r) (lit (4 / 100))
     \<and> (cess r = Fin 0 \<longleftrightarrow> tax r = Fin 0)
     \<and> total_tax r = fadd (tax r) (cess r)
     \<and> fdiv (total_tax r) (Fin 12) = Inr (monthly_tax r)"
proof -
  obtain r where r: "calculate_tax m ut = Inr r"
    "tax r = bracket_tax (fmul m (Fin 12))"
    "cess r = fmul (bracket_tax (fmul m (Fin 12))) (lit (4 / 100))"
    "total_tax r = fadd (bracket_tax (fmul m (Fin 12)))
       (fmul (bracket_tax (fmul m (Fin 12))) (lit (4 / 100)))"
    "fdiv (fadd (bracket_tax (fmul m (Fin 12)))
       (fmul (bracket_tax (fmul m (Fin 12))) (lit (4 / 100)))) (Fin 12) = Inr (monthly_tax r)"
    using calculate_tax_fields [of m ut] by blast
  have "fmul (bracket_tax (fmul m (Fin 12))) (lit (4 / 100)) = Fin 0
        \<longleftrightarrow> bracket_tax (fmul m (Fin 12)) = Fin 0"
    using tax_zero_or_positive [OF assms] cess_positive cess_of_zero by auto
  with r show ?thesis
    by simp
qed

theorem calculate_tax_cess_total_monthly_witness:
  "fle (Fin 0) (Fin 50000)
   \<and> (\<exists>r. calculate_tax (Fin 50000) ''Student'' = Inr r \<and> tax r = Fin 15000
        \<and> cess r = Fin 600 \<and> total_tax r = Fin 15600 \<and> monthly_tax r = Fin 1300)"
proof -
  have h: "fle (Fin 0) (Fin 50000)"
    by simp
  have b: "bracket_tax (fmul (Fin 50000) (Fin 12)) = Fin 15000"
    by code_simp
  have c: "fmul (Fin 15000) (lit (4 / 100)) = Fin 600"
    by code_simp
  have t: "fadd (Fin 15000) (Fin 600) = Fin 15600"
    by code_simp
  have d: "fdiv (Fin 15600) (Fin 12) = Inr (Fin 1300)"
    by code_simp
  from calculate_tax_cess_total_monthly [OF h, of "''Student''"]
  obtain r where r: "calculate_tax (Fin 50000) ''Student'' = Inr r"
    "tax r = bracket_tax (fmul (Fin 50000) (Fin 12))"
    "cess r = fmul (tax r) (lit (4 / 100))"
    "total_tax r = fadd (tax r) (cess r)"
    "fdiv (total_tax r) (Fin 12) = Inr (monthly_tax r)"
    by blast
  have 1: "tax r = Fin 15000"
    using r(2) by (simp only: b)
  have 2: "cess r = Fin 600"
    using r(3) by (simp only: 1 c)
  have 3: "total_tax r = Fin 15600"
    using r(4) by (simp only: 1 2 t)
  have "Inr (monthly_tax r) = (Inr (Fin 1300) :: py_error + pyfloat)"
    using r(5) by (simp only: 3 d)
  then have 4: "monthly_tax r = Fin 1300"
    by simp
  from h r(1) 1 2 3 4 show ?thesis
    by blast
qed

text \<open>
  C4. For a monthly income \<open>m \<ge> 0\<close>, \<open>calculate_tax\<close> returns a record and raises
  nothing, so it never divides by zero. With \<open>a = m * 12\<close> the annual income, the total
  tax is that of the bracket tax of \<open>a\<close> with its cess; when \<open>a\<close> is positive the
  effective rate is \<open>total_tax / a * 100\<close>, the division being defined; otherwise \<open>a\<close>
  is 0 and the effective rate is 0. The operations are Python's, on floats.
\<close>

theorem calculate_tax_effective_rate:
  assumes "fle (Fin 0) m"
  shows "\<exists>r. calculate_tax m ut = Inr r
     \<and> annual_income r = fmul m (Fin 12)
     \<and> total_tax r = fadd (bracket_tax (fmul m (Fin 12)))
                          (fmul (bracket_tax (fmul m (Fin 12))) (lit (4 / 100)))
     \<and> (if flt (Fin 0) (fmul m (Fin 12))
        then \<exists>q. fdiv (total_tax r) (fmul m (Fin 12)) = Inr q
               \<and> effective_rate r = fmul q (Fin 100)
        else fmul m (Fin 12) = Fin 0 \<and> effective_rate r = Fin 0)"
proof -
  obtain r where r: "calculate_tax m ut = Inr r"
    "annual_income r = fmul m (Fin 12)"
    "total_tax r = fadd (bracket_tax (fmul m (Fin 12)))
       (fmul (bracket_tax (fmul m (Fin 12))) (lit (4 / 100)))"
    "if flt (Fin 0) (fmul m (Fin 12))
     then \<exists>q. fdiv (fadd (bracket_tax (fmul m (Fin 12)))
                 (fmul (bracket_tax (fmul m (Fin 12))) (lit (4 / 100))))
               (fmul m (Fin 12)) = Inr q \<and> effective_rate r = fmul q (Fin 100)
     else effective_rate r = Fin 0"
    using calculate_tax_fields [of m ut] by blast
  have z: "\<not> flt (Fin 0) (fmul m (Fin 12)) \<Longrightarrow> fmul m (Fin 12) = Fin 0"
    by (cases rule: annual_cases [OF assms]) auto
  show ?thesis
  proof (cases "flt (Fin 0) (fmul m (Fin 12))")
    case True
    with r show ?thesis by auto
  next
    case False
    with r z show ?thesis by auto
  qed
qed

theorem calculate_tax_effective_rate_witness:
  "fle (Fin 0) (Fin 50000) \<and> fle (Fin 0) (Fin 0)
   \<and> (\<exists>r. calculate_tax (Fin 50000) ''Student'' = Inr r
        \<and> annual_income r = Fin 600000 \<and> total_tax r = Fin 15600
        \<and> effective_rate r = Fin (5854679515581645 / 2251799813685248))
   \<and> (\<exists>r. calculate_tax (Fin 0) ''Student'' = Inr r
        \<and> annual_income r = Fin 0 \<and> effective_rate r = Fin 0)"
proof -
  have h: "fle (Fin 0) (Fin 50000)" and h0: "fle (Fin 0) (Fin 0)"
    by simp_all
  have a: "fmul (Fin 50000) (Fin 12) = Fin 600000"
    by code_simp
  have t: "fadd (bracket_tax (Fin 600000)) (fmul (bracket_tax (Fin 600000)) (lit (4 / 100)))
           = Fin 15600"
    by code_simp
  have p: "flt (Fin 0) (Fin 600000)"
    by simp
  have d: "fdiv (Fin 15600) (Fin 600000) = Inr (Fin (7493989779944505 / 288230376151711744))"
    by code_simp
  have e: "fmul (Fin (7493989779944505 / 288230376151711744)) (Fin 100)
           = Fin (5854679515581645 / 2251799813685248)"
    by code_simp
  have a0: "fmul (Fin 0) (Fin 12) = Fin 0"
    by code_simp
  have p0: "\<not> flt (Fin 0) (Fin 0)"
    by simp
  from calculate_tax_effective_rate [OF h, of "''Student''"]
  obtain r where r: "calculate_tax (Fin 50000) ''Student'' = Inr r"
    "annual_income r = Fin 600000" "total_tax r = Fin 15600"
    "\<exists>q. fdiv (total_tax r) (Fin 600000) = Inr q \<and> effective_rate r = fmul q (Fin 100)"
    unfolding a t if_P [OF p] by blast
  from r(4) obtain q where q: "fdiv (Fin 15600) (Fin 600000) = Inr q"
    "effective_rate r = fmul q (Fin 100)"
    unfolding r(3) by blast
  have "q = Fin (7493989779944505 / 288230376151711744)"
    using q(1) unfolding d by simp
  then have 1: "effective_rate r = Fin (5854679515581645 / 2251799813685248)"
    using q(2) by (simp only: e)
  from calculate_tax_effective_rate [OF h0, of "''Student''"]
  obtain r0 where r0: "calculate_tax (Fin 0) ''Student'' = Inr r0"
    "annual_income r0 = Fin 0" "effective_rate r0 = Fin 0"
    unfolding a0 if_not_P [OF p0] by blast
  from h h0 r(1-3) 1 r0 show ?thesis
    by blast
qed

text \<open>
  C7. The claim, that the \<open>annual_income\<close> returned equals \<open>12 m\<close> exactly for every
  monthly income \<open>m \<ge> 0\<close>, fails on floats: at the double written \<open>0.1\<close>, which is
  \<open>3602879701896397 / 2 ^ 55\<close>, the code returns \<open>1351079888211149 / 2 ^ 50\<close>, printed
  1.2000000000000002, and that is not 12 times the income.
\<close>

theorem calculate_tax_annual_income_counterexample:
  "lit (1 / 10) = Fin (3602879701896397 / 36028797018963968)
   \<and> fle (Fin 0) (Fin (3602879701896397 / 36028797018963968))
   \<and> is_f64 (Fin (3602879701896397 / 36028797018963968))
   \<and> map_sum id annual_income
       (calculate_tax (Fin (3602879701896397 / 36028797018963968)) ''Student'')
     = Inr (Fin (1351079888211149 / 1125899906842624))
   \<and> Fin (1351079888211149 / 1125899906842624)
     \<noteq> Fin (12 * (3602879701896397 / 36028797018963968))"
proof -
  have l: "lit (1 / 10) = Fin (3602879701896397 / 36028797018963968)"
    by code_simp
  have f: "is_f64 (Fin (3602879701896397 / 36028797018963968))"
    by code_simp
  have a: "fmul (Fin (3602879701896397 / 36028797018963968)) (Fin 12)
           = Fin (1351079888211149 / 1125899906842624)"
    by code_simp
  obtain r where r: "calculate_tax (Fin (3602879701896397 / 36028797018963968)) ''Student''
      = Inr r"
    "annual_income r = fmul (Fin (3602879701896397 / 36028797018963968)) (Fin 12)"
    using calculate_tax_fields [of "Fin (3602879701896397 / 36028797018963968)" "''Student''"]
    by blast
  have c: "map_sum id annual_income
       (calculate_tax (Fin (3602879701896397 / 36028797018963968)) ''Student'')
     = Inr (Fin (1351079888211149 / 1125899906842624))"
    unfolding r(1) using r(2) unfolding a by simp
  have n: "Fin (1351079888211149 / 1125899906842624)
     \<noteq> Fin (12 * (3602879701896397 / 36028797018963968))"
    by simp
  have h: "fle (Fin 0) (Fin (3602879701896397 / 36028797018963968))"
    by simp
  from l h f c n show ?thesis
    by blast
qed

text \<open>
  C7, amended. For a monthly income \<open>m \<ge> 0\<close>, the \<open>annual_income\<close> of the returned
  record is Python's float product \<open>m * 12\<close>: for a finite \<open>m\<close> the double nearest to
  \<open>12 m\<close>, ties to even, or infinity when that is out of range. It equals \<open>12 m\<close>
  exactly whenever \<open>12 m\<close> is itself a double, as at \<open>m = 50000\<close>.
\<close>

theorem calculate_tax_annual_income:
  assumes "fle (Fin 0) m"
  shows "\<exists>r. calculate_tax m ut = Inr r \<and> annual_income r = fmul m (Fin 12)
     \<and> (\<forall>x. m = Fin x \<longrightarrow> annual_income r = round_f64 (12 * x))
     \<and> (\<forall>x. m = Fin x \<and> is_f64 (Fin (12 * x)) \<longrightarrow> annual_income r = Fin (12 * x))"
proof -
  obtain r where r: "calculate_tax m ut = Inr r" "annual_income r = fmul m (Fin 12)"
    using calculate_tax_fields [of m ut] by blast
  have 1: "annual_income r = round_f64 (12 * x)" if "m = Fin x" for x
    using that r by (simp add: mult.commute)
  have 2: "annual_income r = Fin (12 * x)" if "m = Fin x" "is_f64 (Fin (12 * x))" for x
    using that r by (simp add: is_f64_def mult.commute)
  from r 1 2 show ?thesis by blast
qed

theorem calculate_tax_annual_income_witness:
  "fle (Fin 0) (Fin 50000) \<and> is_f64 (Fin (12 * 50000))
   \<and> (\<exists>r. calculate_tax (Fin 50000) ''Student'' = Inr r \<and> annual_income r = Fin (12 * 50000))"
proof -
  have h: "fle (Fin 0) (Fin 50000)"
    by simp
  have f: "is_f64 (Fin (12 * 50000))"
    by code_simp
  from calculate_tax_annual_income [OF h, of "''Student''"] f h show ?thesis
    by blast
qed

end
